theory Spec2Isabelle
  imports Main "HOL-Library.Char_ord" "HOL-Library.List_Lexorder"
begin

section \<open>Byte strings and the string helpers of the Go library\<close>

text \<open>
  A Go string is a sequence of bytes; it is modelled as a \<open>string\<close> (a list of
  8-bit characters).  \<open>byte c\<close> is the numeric value of the byte \<open>c\<close>.
\<close>

definition byte :: "char \<Rightarrow> int" where
  "byte c = of_char c"

definition isDigit :: "char \<Rightarrow> bool" where
  \<comment> \<open>\<open>c >= '0' && c <= '9'\<close>\<close>
  "isDigit c = (48 \<le> byte c \<and> byte c \<le> 57)"

definition isAlnum :: "char \<Rightarrow> bool" where
  \<comment> \<open>the character class \<open>[a-zA-Z0-9]\<close>\<close>
  "isAlnum c = ((97 \<le> byte c \<and> byte c \<le> 122) \<or> (65 \<le> byte c \<and> byte c \<le> 90) \<or> isDigit c)"

fun HasPrefix :: "string \<Rightarrow> string \<Rightarrow> bool" where
  "HasPrefix s [] = True"
| "HasPrefix [] (p # ps) = False"
| "HasPrefix (c # cs) (p # ps) = (c = p \<and> HasPrefix cs ps)"

text \<open>
  \<open>strings.Split(s, sep)\<close> for a separator of one byte (the program only splits at
  \<open>"."\<close> and at \<open>"\n"\<close>): the pieces between the separators; the empty string
  gives one empty piece.
\<close>

fun addToFirst :: "char \<Rightarrow> string list \<Rightarrow> string list" where
  \<comment> \<open>the byte \<open>c\<close> put in front of the first piece\<close>
  "addToFirst c [] = [[c]]"
| "addToFirst c (piece # pieces) = (c # piece) # pieces"

fun Split :: "string \<Rightarrow> char \<Rightarrow> string list" where
  "Split [] sep = [[]]"
| "Split (c # cs) sep =
     (if c = sep then [] # Split cs sep else addToFirst c (Split cs sep))"

definition Contains :: "string \<Rightarrow> char \<Rightarrow> bool" where
  "Contains s c = List.member s c"

text \<open>
  \<open>strings.Join(elems, ",")\<close>.
\<close>

fun Join :: "string list \<Rightarrow> string \<Rightarrow> string" where
  "Join [] sep = []"
| "Join [x] sep = x"
| "Join (x # y # ys) sep = x @ sep @ Join (y # ys) sep"

subsection \<open>strings.TrimSpace\<close>

text \<open>
  \<open>strings.TrimSpace\<close> removes leading and trailing white space as Unicode defines
  it (\<open>unicode.IsSpace\<close>), decoding the bytes as UTF-8.  The white-space code points
  are U+0009..U+000D, U+0020, U+0085, U+00A0, U+1680, U+2000..U+200A, U+2028, U+2029,
  U+202F, U+205F and U+3000.  The decoder rejects over-long forms, so each has exactly one
  encoding; \<open>spaceWidth s\<close> is the width in bytes of the white-space code point that
  \<open>s\<close> starts with, and 0 when it starts with none.
\<close>

definition spaceWidth :: "string \<Rightarrow> nat" where
  "spaceWidth s =
     (case map byte s of
        [] \<Rightarrow> 0
      | b0 # r0 \<Rightarrow>
          if (9 \<le> b0 \<and> b0 \<le> 13) \<or> b0 = 32 then 1
          else (case r0 of
              [] \<Rightarrow> 0
            | b1 # r1 \<Rightarrow>
                if b0 = 0xC2 \<and> (b1 = 0x85 \<or> b1 = 0xA0) then 2
                else (case r1 of
                    [] \<Rightarrow> 0
                  | b2 # r2 \<Rightarrow>
                      if b0 = 0xE1 \<and> b1 = 0x9A \<and> b2 = 0x80 then 3
                      else if b0 = 0xE2 \<and> b1 = 0x80 \<and>
                              ((0x80 \<le> b2 \<and> b2 \<le> 0x8A) \<or> b2 = 0xA8 \<or> b2 = 0xA9 \<or> b2 = 0xAF)
                           then 3
                      else if b0 = 0xE2 \<and> b1 = 0x81 \<and> b2 = 0x9F then 3
                      else if b0 = 0xE3 \<and> b1 = 0x80 \<and> b2 = 0x80 then 3
                      else 0)))"

text \<open>
  \<open>lastSpaceWidth s\<close> is the width of the white-space code point that \<open>s\<close> ends
  with (what \<open>utf8.DecodeLastRuneInString\<close> finds), and 0 when it ends with none.
\<close>

definition lastSpaceWidth :: "string \<Rightarrow> nat" where
  "lastSpaceWidth s =
     (let n = length s in
      if 1 \<le> n \<and> spaceWidth (drop (n - 1) s) = 1 then 1
      else if 2 \<le> n \<and> spaceWidth (drop (n - 2) s) = 2 then 2
      else if 3 \<le> n \<and> spaceWidth (drop (n - 3) s) = 3 then 3
      else 0)"

function TrimLeft :: "string \<Rightarrow> string" where
  "TrimLeft s =
     (if s = [] \<or> spaceWidth s = 0 then s else TrimLeft (drop (spaceWidth s) s))"
  by pat_completeness auto
termination
  by (relation "measure length") auto

function TrimRight :: "string \<Rightarrow> string" where
  "TrimRight s =
     (if s = [] \<or> lastSpaceWidth s = 0 then s
      else TrimRight (take (length s - lastSpaceWidth s) s))"
  by pat_completeness auto
termination
  by (relation "measure length") auto

declare TrimLeft.simps [simp del] TrimRight.simps [simp del]

definition TrimSpace :: "string \<Rightarrow> string" where
  "TrimSpace s = TrimRight (TrimLeft s)"

section \<open>net.ParseIP of the Go standard library\<close>

text \<open>
  \<open>net.ParseIP\<close>, as current Go releases have it, is \<open>netip.ParseAddr\<close> with
  addresses that carry a zone refused, and the result widened to 16 bytes.  It accepts
  the dotted decimal form, the IPv6 forms, and the IPv6 forms that end in a dotted
  decimal, such as \<open>::ffff:192.0.2.1\<close>.  An address is the list of its bytes, each
  a number from 0 to 255.
\<close>

text \<open>
  \<open>parseIPv4Fields\<close>: the loop over the bytes of a dotted-decimal address.  \<open>prev\<close>
  is the byte before the current one (\<open>None\<close> at index 0), \<open>val\<close> the value of the
  octet read so far, \<open>pos\<close> the number of octets stored, \<open>digLen\<close> the number of
  digits of the current octet.
\<close>

fun parseIPv4Fields_loop ::
  "char option \<Rightarrow> int \<Rightarrow> nat \<Rightarrow> nat \<Rightarrow> int list \<Rightarrow> string \<Rightarrow> int list option" where
  "parseIPv4Fields_loop prev val pos digLen fields [] =
     (if pos < 3 then None else Some (fields @ [val]))"
| "parseIPv4Fields_loop prev val pos digLen fields (c # cs) =
     (if isDigit c then
        (if digLen = 1 \<and> val = 0 then None
         else (let val' = val * 10 + (byte c - 48) in
           if val' > 255 then None
           else parseIPv4Fields_loop (Some c) val' pos (digLen + 1) fields cs))
      else if c = CHR ''.'' then
        (if prev = None \<or> cs = [] \<or> prev = Some CHR ''.'' then None
         else if pos = 3 then None
         else parseIPv4Fields_loop (Some c) 0 (pos + 1) 0 (fields @ [val]) cs)
      else None)"

definition parseIPv4Fields :: "string \<Rightarrow> int list option" where
  "parseIPv4Fields s = parseIPv4Fields_loop None 0 0 0 [] s"

text \<open>
  The hexadecimal group at the start of \<open>s\<close>: the number of digits read and their
  value, or \<open>None\<close> for a fifth digit or a value above \<open>0xFFFF\<close>.
\<close>

definition hexval :: "char \<Rightarrow> int option" where
  "hexval c =
     (if isDigit c then Some (byte c - 48)
      else if 97 \<le> byte c \<and> byte c \<le> 102 then Some (byte c - 97 + 10)
      else if 65 \<le> byte c \<and> byte c \<le> 70 then Some (byte c - 65 + 10)
      else None)"

fun hexGroup :: "string \<Rightarrow> nat \<Rightarrow> int \<Rightarrow> (nat \<times> int) option" where
  "hexGroup [] off acc = Some (off, acc)"
| "hexGroup (c # cs) off acc =
     (case hexval c of
        None \<Rightarrow> Some (off, acc)
      | Some d \<Rightarrow>
          (let acc' = acc * 16 + d in
           if off > 3 then None
           else if acc' > 65535 then None
           else hexGroup cs (off + 1) acc'))"

text \<open>
  The main loop of \<open>parseIPv6\<close>, \<open>for i < 16\<close>.  \<open>ip\<close> holds the bytes written so
  far, so that the index \<open>i\<close> of the source is \<open>length ip\<close>; \<open>ellipsis\<close> is the
  position of \<open>::\<close> (\<open>None\<close> for the source's -1).  One pass through the body
  returns an error (\<open>V6Fail\<close>), leaves the loop (\<open>V6Break\<close>) or goes on to the next
  test of the loop condition (\<open>V6Next\<close>), each with the rest of the string, the bytes and
  the ellipsis.
\<close>

datatype v6loop =
  V6Fail | V6Break string "int list" "nat option" | V6Next string "int list" "nat option"

definition parseIPv6_body :: "string \<Rightarrow> int list \<Rightarrow> nat option \<Rightarrow> v6loop" where
  "parseIPv6_body s ip ellipsis =
     (case hexGroup s 0 0 of
        None \<Rightarrow> V6Fail
      | Some (off, acc) \<Rightarrow>
          if off = 0 then V6Fail
          else if off < length s \<and> s ! off = CHR ''.'' then
            (if ellipsis = None \<and> length ip \<noteq> 12 then V6Fail
             else if length ip + 4 > 16 then V6Fail
             else (case parseIPv4Fields s of
                     None \<Rightarrow> V6Fail
                   | Some fields \<Rightarrow> V6Break [] (ip @ fields) ellipsis))
          else
            (let ip' = ip @ [acc div 256, acc mod 256]; s1 = drop off s in
             if s1 = [] then V6Break [] ip' ellipsis
             else if hd s1 \<noteq> CHR '':'' then V6Fail
             else if length s1 = 1 then V6Fail
             else (let s2 = tl s1 in
               if hd s2 = CHR '':'' then
                 (if ellipsis \<noteq> None then V6Fail
                  else if tl s2 = [] then V6Break [] ip' (Some (length ip'))
                  else V6Next (tl s2) ip' (Some (length ip')))
               else V6Next s2 ip' ellipsis)))"

function parseIPv6_loop :: "v6loop \<Rightarrow> (string \<times> int list \<times> nat option) option" where
  "parseIPv6_loop V6Fail = None"
| "parseIPv6_loop (V6Break s ip ellipsis) = Some (s, ip, ellipsis)"
| "parseIPv6_loop (V6Next s ip ellipsis) =
     (if length ip < 16 then parseIPv6_loop (parseIPv6_body s ip ellipsis)
      else Some (s, ip, ellipsis))"
  by pat_completeness auto
termination
proof (relation "measure (\<lambda>st. case st of V6Next s ip ellipsis \<Rightarrow> 17 - length ip | _ \<Rightarrow> 0)")
  fix s :: string and ip :: "int list" and ellipsis :: "nat option"
  assume less: "length ip < 16"
  have grows: "case parseIPv6_body s ip ellipsis of
      V6Next s' ip' e' \<Rightarrow> length ip' = length ip + 2 | _ \<Rightarrow> True"
    by (simp add: parseIPv6_body_def Let_def split: option.split prod.split)
  show "(parseIPv6_body s ip ellipsis, V6Next s ip ellipsis)
      \<in> measure (\<lambda>st. case st of V6Next s ip ellipsis \<Rightarrow> 17 - length ip | _ \<Rightarrow> 0)"
    using less grows by (cases "parseIPv6_body s ip ellipsis") auto
qed simp

text \<open>
  \<open>parseIPv6\<close>: the zone is split off at the first \<open>%\<close>, a leading \<open>::\<close> is
  taken, the loop runs, the whole string must be used, and the ellipsis is expanded to
  the missing zero bytes.  The result is the 16 bytes and the zone.
\<close>

definition parseIPv6 :: "string \<Rightarrow> (int list \<times> string) option" where
  "parseIPv6 input =
     (let s0 = takeWhile (\<lambda>c. c \<noteq> CHR ''%'') input;
          hasZone = (length s0 < length input);
          zone = drop (length s0 + 1) input
      in if hasZone \<and> zone = [] then None
      else
        (let lead = (length s0 \<ge> 2 \<and> s0 ! 0 = CHR '':'' \<and> s0 ! 1 = CHR '':'');
             s = (if lead then drop 2 s0 else s0);
             ellipsis = (if lead then Some 0 else None)
         in if lead \<and> s = [] then Some (replicate 16 0, zone)
         else
           (case parseIPv6_loop (V6Next s [] ellipsis) of
              None \<Rightarrow> None
            | Some (rest, ip, ell) \<Rightarrow>
                if rest \<noteq> [] then None
                else if length ip < 16 then
                  (case ell of
                     None \<Rightarrow> None
                   | Some e \<Rightarrow> Some (take e ip @ replicate (16 - length ip) 0 @ drop e ip, zone))
                else if ell \<noteq> None then None
                else Some (ip, zone))))"

datatype addr = Addr4 "int list" | Addr6 "int list" string

definition parseIPv4 :: "string \<Rightarrow> addr option" where
  "parseIPv4 s = map_option Addr4 (parseIPv4Fields s)"

text \<open>
  \<open>netip.ParseAddr\<close>: the first of \<open>.\<close>, \<open>:\<close> and \<open>%\<close> in the string selects the
  parser; a string with none of them is no address.
\<close>

fun ParseAddr_scan :: "string \<Rightarrow> string \<Rightarrow> addr option" where
  "ParseAddr_scan s [] = None"
| "ParseAddr_scan s (c # cs) =
     (if c = CHR ''.'' then parseIPv4 s
      else if c = CHR '':'' then map_option (\<lambda>(ip, zone). Addr6 ip zone) (parseIPv6 s)
      else if c = CHR ''%'' then None
      else ParseAddr_scan s cs)"

definition ParseAddr :: "string \<Rightarrow> addr option" where
  "ParseAddr s = ParseAddr_scan s s"

text \<open>
  \<open>net.ParseIP\<close>: \<open>None\<close> is the source's \<open>nil\<close>.  An IPv4 address is returned in
  its 16-byte form \<open>::ffff:a.b.c.d\<close> (\<open>Addr.As16\<close>).
\<close>

definition ParseIP :: "string \<Rightarrow> int list option" where
  "ParseIP s =
     (case ParseAddr s of
        None \<Rightarrow> None
      | Some (Addr4 fields) \<Rightarrow> Some (replicate 10 0 @ [255, 255] @ fields)
      | Some (Addr6 ip zone) \<Rightarrow> if zone \<noteq> [] then None else Some ip)"

text \<open>
  \<open>IP.To4\<close>: the four bytes of an IPv4 address, also of one in 16-byte form.
\<close>

definition To4 :: "int list \<Rightarrow> int list option" where
  "To4 ip =
     (if length ip = 4 then Some ip
      else if length ip = 16 \<and> take 10 ip = replicate 10 0 \<and> ip ! 10 = 255 \<and> ip ! 11 = 255
        then Some (drop 12 ip)
      else None)"

section \<open>The validators of the program\<close>

definition isValidIPv4 :: "string \<Rightarrow> bool" where
  "isValidIPv4 s =
     (case ParseIP s of
        None \<Rightarrow> False
      | Some ip \<Rightarrow>
          if To4 ip = None then False
          else (let parts = Split s CHR ''.'' in
            if length parts \<noteq> 4 then False
            else list_all (\<lambda>part. \<not> (length part > 1 \<and> part ! 0 = CHR ''0'')) parts))"

text \<open>
  The label pattern \<open>^[a-zA-Z0-9]([a-zA-Z0-9-]*[a-zA-Z0-9])?$|^[a-zA-Z0-9]$\<close>: a
  non-empty label of letters, digits and hyphens that starts and ends with a letter or a
  digit.
\<close>

definition labelPattern :: "string \<Rightarrow> bool" where
  "labelPattern label =
     (label \<noteq> [] \<and> isAlnum (hd label) \<and> isAlnum (last label) \<and>
      list_all (\<lambda>c. isAlnum c \<or> c = CHR ''-'') label)"

definition isValidHostname :: "string \<Rightarrow> bool" where
  "isValidHostname s =
     (if length s = 0 \<or> length s > 253 then False
      else if \<not> Contains s CHR ''.'' then False
      else list_all (\<lambda>label. \<not> (length label = 0 \<or> length label > 63) \<and> labelPattern label)
             (Split s CHR ''.''))"

datatype classification = LiteralAddress | DomainName | Invalid

definition classify :: "string \<Rightarrow> classification" where
  \<comment> \<open>the order of the tests in \<open>main\<close>: the address test first\<close>
  "classify line =
     (if isValidIPv4 line then LiteralAddress
      else if isValidHostname line then DomainName
      else Invalid)"

section \<open>The resolver\<close>

text \<open>
  The external command \<open>dig +short <name>\<close> is a parameter of the model: given the
  host name and the state of the world it returns either the error of \<open>cmd.Output()\<close>
  (its text) or the bytes the command wrote, and the next state of the world.
\<close>

type_synonym 'w command = "string \<Rightarrow> 'w \<Rightarrow> (string + string) \<times> 'w"

definition keepAnswer :: "string \<Rightarrow> bool" where
  \<comment> \<open>the two tests on a trimmed line of the output\<close>
  "keepAnswer line =
     (if line = [] then False
      else (case ParseIP line of None \<Rightarrow> False | Some ip \<Rightarrow> To4 ip \<noteq> None))"

definition parseAnswers :: "string \<Rightarrow> string list" where
  "parseAnswers output =
     filter keepAnswer (map TrimSpace (Split (TrimSpace output) CHR 0x0A))"

definition resolveHostname :: "'w command \<Rightarrow> string \<Rightarrow> 'w \<Rightarrow> (string + string list) \<times> 'w" where
  "resolveHostname dig hostname w =
     (case dig hostname w of
        (Inl err, w') \<Rightarrow> (Inl err, w')
      | (Inr output, w') \<Rightarrow> (Inr (parseAnswers output), w'))"

section \<open>The aggregator\<close>

text \<open>
  \<open>removeDuplicates\<close>: \<open>seen\<close> is the map from strings to booleans, a missing key
  reading as \<open>false\<close>.
\<close>

fun removeDuplicates_loop ::
  "(string \<rightharpoonup> bool) \<Rightarrow> string list \<Rightarrow> string list \<Rightarrow> string list" where
  "removeDuplicates_loop seen result [] = result"
| "removeDuplicates_loop seen result (item # rest) =
     (if \<not> (case seen item of None \<Rightarrow> False | Some b \<Rightarrow> b)
      then removeDuplicates_loop (seen(item \<mapsto> True)) (result @ [item]) rest
      else removeDuplicates_loop seen result rest)"

definition removeDuplicates :: "string list \<Rightarrow> string list" where
  "removeDuplicates slice = removeDuplicates_loop Map.empty [] slice"

text \<open>
  Go compares strings byte by byte: \<open>stringLess a b\<close> is \<open>a < b\<close> of the source.
  \<open>sort.Strings\<close> puts a slice in increasing order; the order on \<open>string\<close> used by
  \<open>sort\<close> is the lexicographic one on the values of the bytes.
\<close>

fun stringLess :: "string \<Rightarrow> string \<Rightarrow> bool" where
  "stringLess [] [] = False"
| "stringLess [] (y # ys) = True"
| "stringLess (x # xs) [] = False"
| "stringLess (x # xs) (y # ys) = (byte x < byte y \<or> (x = y \<and> stringLess xs ys))"

definition sortStrings :: "string list \<Rightarrow> string list" where
  "sortStrings xs = sort xs"

definition finalIPs :: "string list \<Rightarrow> string list" where
  \<comment> \<open>\<open>allIPs\<close> after lines 187 and 188 of \<open>main\<close>\<close>
  "finalIPs ips = sortStrings (removeDuplicates ips)"

definition allowedIPsValue :: "string list \<Rightarrow> string" where
  \<comment> \<open>line 190 of \<open>main\<close>, from the addresses that the loop collected\<close>
  "allowedIPsValue ips = Join (finalIPs ips) '',''"

section \<open>Diagnostics\<close>

definition colorRed :: string where
  "colorRed = CHR 0x1B # ''[0;31m''"

definition colorYellow :: string where
  "colorYellow = CHR 0x1B # ''[0;33m''"

definition colorReset :: string where
  "colorReset = CHR 0x1B # ''[0m''"

definition errorMsg :: "string \<Rightarrow> string" where
  \<comment> \<open>what \<open>errorExit\<close> writes to standard error before it exits with code 1\<close>
  "errorMsg body = colorRed @ ''ERROR: '' @ body @ colorReset @ [CHR 0x0A]"

definition warnMsg :: "string \<Rightarrow> string" where
  \<comment> \<open>what \<open>warn\<close> writes to standard error\<close>
  "warnMsg body = colorYellow @ ''WARNING: '' @ body @ colorReset @ [CHR 0x0A]"

text \<open>
  The verb \<open>%d\<close> on a line number: its decimal digits.
\<close>

function itoa :: "nat \<Rightarrow> string" where
  "itoa n =
     (if n < 10 then [char_of (48 + n)]
      else itoa (n div 10) @ [char_of (48 + n mod 10)])"
  by pat_completeness auto
termination
  by (relation "measure id") auto

declare itoa.simps [simp del]

section \<open>The program\<close>

text \<open>
  The state of the loop over the allow-list: the line counter, the addresses collected,
  what was written to standard error so far (one element for each write), and the world
  the resolver runs in.
\<close>

record 'w state =
  lineNum :: nat
  allIPs :: "string list"
  diag :: "string list"
  world :: 'w

text \<open>
  The body of the loop for one line that the scanner delivers.  \<open>Inl\<close> is
  \<open>errorExit\<close>: the run ends there, with what standard error holds then.
\<close>

definition processLine :: "'w command \<Rightarrow> 'w state \<Rightarrow> string \<Rightarrow> string list + 'w state" where
  "processLine dig st text =
     (let n = lineNum st + 1; line = TrimSpace text in
      if line = [] then Inr (st\<lparr>lineNum := n\<rparr>)
      else if HasPrefix line ''#'' then Inr (st\<lparr>lineNum := n\<rparr>)
      else if isValidIPv4 line then Inr (st\<lparr>lineNum := n, allIPs := allIPs st @ [line]\<rparr>)
      else if isValidHostname line then
        (case resolveHostname dig line (world st) of
           (Inl err, w') \<Rightarrow>
             Inr (st\<lparr>lineNum := n,
                   diag := diag st @
                     [warnMsg (''Line '' @ itoa n @ '': Failed to resolve hostname '' @ line @
                               '': '' @ err)],
                   world := w'\<rparr>)
         | (Inr resolvedIPs, w') \<Rightarrow>
             if length resolvedIPs = 0 then
               Inr (st\<lparr>lineNum := n,
                     diag := diag st @
                       [warnMsg (''Line '' @ itoa n @ '': No DNS results for hostname: '' @ line)],
                     world := w'\<rparr>)
             else Inr (st\<lparr>lineNum := n, allIPs := allIPs st @ resolvedIPs, world := w'\<rparr>))
      else Inl (diag st @
             [errorMsg (''Line '' @ itoa n @ '': Invalid entry (not an IPv4 or hostname): '' @
                        line)]))"

fun scanEntries :: "'w command \<Rightarrow> 'w state \<Rightarrow> string list \<Rightarrow> string list + 'w state" where
  "scanEntries dig st [] = Inr st"
| "scanEntries dig st (text # rest) =
     (case processLine dig st text of
        Inl err \<Rightarrow> Inl err
      | Inr st' \<Rightarrow> scanEntries dig st' rest)"

text \<open>
  What a run leaves behind: the exit code and the writes to standard output and to
  standard error, in order.
\<close>

record outcome =
  exit_code :: nat
  stdout :: "string list"
  stderr :: "string list"

text \<open>
  A file, as the program sees it through \<open>bufio.Scanner\<close>: the lines that the calls
  of \<open>Scan\<close> deliver (without their line ends), and the error that \<open>Err\<close> reports
  once \<open>Scan\<close> has returned false (\<open>None\<close> at the end of the input).  The file
  system gives the file at a path, or \<open>None\<close> when \<open>os.Open\<close> fails.  For a
  file of bytes \<open>content\<close> that is read to its end, the lines delivered are
  \<open>scanTokens content\<close>, defined below.
\<close>

type_synonym input_file = "string list \<times> string option"




definition emitLine :: "string \<Rightarrow> string \<Rightarrow> string" where
  \<comment> \<open>the body of the loop over the template\<close>
  "emitLine val line =
     (let trimmed = TrimSpace line in
      if HasPrefix trimmed ''AllowedIPs''
      then ''AllowedIPs = '' @ val @ [CHR 0x0A]
      else line @ [CHR 0x0A])"

definition emitOutput ::
  "(string \<Rightarrow> input_file option) \<Rightarrow> string list \<Rightarrow> string list \<Rightarrow> string \<Rightarrow> outcome" where
  \<comment> \<open>\<open>main\<close> from line 186 on: \<open>errs\<close> is what standard error holds already\<close>
  "emitOutput fs errs ips wgConfigFile =
     (if wgConfigFile = [] then
        \<lparr>exit_code = 0,
         stdout = (if length (finalIPs ips) > 0 then [allowedIPsValue ips @ [CHR 0x0A]] else []),
         stderr = errs\<rparr>
      else
        (case fs wgConfigFile of
           None \<Rightarrow>
             \<lparr>exit_code = 1, stdout = [],
              stderr = errs @
                [errorMsg (''WireGuard config file does not exist: '' @ wgConfigFile)]\<rparr>
         | Some (wgLines, wgErr) \<Rightarrow>
             (case wgErr of
                None \<Rightarrow>
                  \<lparr>exit_code = 0, stdout = map (emitLine (allowedIPsValue ips)) wgLines,
                   stderr = errs\<rparr>
              | Some err \<Rightarrow>
                  \<lparr>exit_code = 1, stdout = map (emitLine (allowedIPsValue ips)) wgLines,
                   stderr = errs @
                     [errorMsg (''Error reading WireGuard config file: '' @ err)]\<rparr>)))"

text \<open>
  The state in which \<open>main\<close> enters the loop over the allow-list.
\<close>

definition initialState :: "'w \<Rightarrow> 'w state" where
  "initialState w = \<lparr>lineNum = 0, allIPs = [], diag = [], world = w\<rparr>"

text \<open>
  \<open>main\<close>: \<open>prog\<close> is \<open>os.Args[0]\<close> and \<open>args\<close> the arguments after it, so that
  \<open>len(os.Args)\<close> is \<open>length args + 1\<close>.
\<close>

definition main :: "'w command \<Rightarrow> (string \<Rightarrow> input_file option) \<Rightarrow> 'w \<Rightarrow> string \<Rightarrow> string list \<Rightarrow> outcome" where
  "main dig fs w prog args =
     (if length args + 1 < 2 \<or> length args + 1 > 3 then
        \<lparr>exit_code = 1, stdout = [],
         stderr = [''Usage: '' @ prog @ '' <allowed-file> [wg-config]'' @ [CHR 0x0A]]\<rparr>
      else
        (let configFile = args ! 0;
             wgConfigFile = (if length args + 1 = 3 then args ! 1 else [])
         in case fs configFile of
              None \<Rightarrow>
                \<lparr>exit_code = 1, stdout = [],
                 stderr = [errorMsg (''Config file does not exist: '' @ configFile)]\<rparr>
            | Some (entries, readErr) \<Rightarrow>
                (case scanEntries dig (initialState w) entries of
                   Inl errs \<Rightarrow> \<lparr>exit_code = 1, stdout = [], stderr = errs\<rparr>
                 | Inr st \<Rightarrow>
                     (case readErr of
                        Some err \<Rightarrow>
                          \<lparr>exit_code = 1, stdout = [],
                           stderr = diag st @ [errorMsg (''Error reading config file: '' @ err)]\<rparr>
                      | None \<Rightarrow> emitOutput fs (diag st) (allIPs st) wgConfigFile))))"

section \<open>The specification's notions\<close>

text \<open>
  A literal address in the specification's words: exactly four segments separated by
  dots, each a decimal integer from 0 to 255, and no segment of more than one digit that
  starts with \<open>0\<close>.
\<close>

definition decimalValue :: "string \<Rightarrow> int" where
  "decimalValue seg = foldl (\<lambda>v c. v * 10 + (byte c - 48)) 0 seg"

definition decimalSegment :: "string \<Rightarrow> bool" where
  "decimalSegment seg =
     (seg \<noteq> [] \<and> list_all isDigit seg \<and> decimalValue seg \<le> 255 \<and>
      (length seg = 1 \<or> hd seg \<noteq> CHR ''0''))"

definition dottedQuad :: "string \<Rightarrow> bool" where
  "dottedQuad s =
     (length (Split s CHR ''.'') = 4 \<and> list_all decimalSegment (Split s CHR ''.''))"

text \<open>
  The rest of a segment, for the proofs about the address parser: \<open>seg\<close> completes
  to a decimal segment an octet of which \<open>digLen\<close> digits of value \<open>val\<close> have been
  read.
\<close>

definition octetRest :: "int \<Rightarrow> nat \<Rightarrow> string \<Rightarrow> bool" where
  "octetRest val digLen seg =
     (list_all isDigit seg \<and> 0 < digLen + length seg \<and>
      foldl (\<lambda>v c. v * 10 + (byte c - 48)) val seg \<le> 255 \<and>
      (if digLen = 0 then length seg = 1 \<or> hd seg \<noteq> CHR ''0'' else val \<noteq> 0 \<or> seg = []))"

text \<open>
  The lines of a file as its bytes have them, each with its line end (a last line may
  have none), so that their concatenation is the file; the text of a line without its
  line end (the line feed, and one carriage return before it); and a line that ends in a
  line feed with no carriage return before it.
\<close>

fun fileLines :: "string \<Rightarrow> string list" where
  "fileLines [] = []"
| "fileLines (c # cs) =
     (if c = CHR 0x0A then [CHR 0x0A] # fileLines cs else addToFirst c (fileLines cs))"




text \<open>
  The decimal numeral of a number: digits only, of that value, with no leading zero.
\<close>

definition decimalOf :: "nat \<Rightarrow> string \<Rightarrow> bool" where
  "decimalOf n num =
     (num \<noteq> [] \<and> list_all isDigit num \<and> decimalValue num = int n \<and>
      (length num = 1 \<or> hd num \<noteq> CHR ''0''))"

text \<open>
  An allow-list line that is an entry (not blank and not a comment once trimmed), and
  one that is an entry classified \<open>Invalid\<close>.
\<close>

definition isEntry :: "string \<Rightarrow> bool" where
  "isEntry text = (TrimSpace text \<noteq> [] \<and> \<not> HasPrefix (TrimSpace text) ''#'')"

definition invalidEntry :: "string \<Rightarrow> bool" where
  "invalidEntry text = (isEntry text \<and> classify (TrimSpace text) = Invalid)"

text \<open>
  A message on standard error that carries the severity tag of a warning, and a list of
  messages that are all warnings.
\<close>

definition isWarning :: "string \<Rightarrow> bool" where
  "isWarning msg = HasPrefix msg (CHR 0x1B # ''[0;33mWARNING: '')"

definition warningsOnly :: "string list \<Rightarrow> bool" where
  "warningsOnly msgs = list_all isWarning msgs"

section \<open>Properties of the aggregator\<close>

lemma byte_less_iff: "byte x < byte y \<longleftrightarrow> x < y"
proof -
  have "byte x = int (of_char x)" "byte y = int (of_char y)"
    by (simp_all add: byte_def of_nat_of_char)
  then show ?thesis by (simp add: less_char_def)
qed

lemma stringLess_iff: "stringLess a b \<longleftrightarrow> a < b"
  by (induction a b rule: stringLess.induct) (simp_all add: byte_less_iff)

lemma removeDuplicates_loop_inv:
  assumes "\<And>x. (case seen x of None \<Rightarrow> False | Some b \<Rightarrow> b) \<longleftrightarrow> x \<in> set result"
    and "distinct result"
  shows "distinct (removeDuplicates_loop seen result xs) \<and>
         set (removeDuplicates_loop seen result xs) = set result \<union> set xs"
  using assms
proof (induction xs arbitrary: seen result)
  case Nil
  then show ?case by simp
next
  case (Cons item rest)
  show ?case
  proof (cases "item \<in> set result")
    case True
    have "(case seen item of None \<Rightarrow> False | Some b \<Rightarrow> b)"
      using Cons.prems(1) [of item] True by simp
    then have step: "removeDuplicates_loop seen result (item # rest) =
        removeDuplicates_loop seen result rest"
      by simp
    have "distinct (removeDuplicates_loop seen result rest) \<and>
        set (removeDuplicates_loop seen result rest) = set result \<union> set rest"
      by (rule Cons.IH [OF Cons.prems])
    with True show ?thesis unfolding step by (simp add: insert_absorb)
  next
    case False
    have "\<not> (case seen item of None \<Rightarrow> False | Some b \<Rightarrow> b)"
      using Cons.prems(1) [of item] False by simp
    then have step: "removeDuplicates_loop seen result (item # rest) =
        removeDuplicates_loop (seen(item \<mapsto> True)) (result @ [item]) rest"
      by simp
    have inv: "(case (seen(item \<mapsto> True)) x of None \<Rightarrow> False | Some b \<Rightarrow> b)
        \<longleftrightarrow> x \<in> set (result @ [item])" for x
      using Cons.prems(1) [of x] by (cases "x = item") simp_all
    have dist: "distinct (result @ [item])" using Cons.prems(2) False by simp
    have "distinct (removeDuplicates_loop (seen(item \<mapsto> True)) (result @ [item]) rest) \<and>
        set (removeDuplicates_loop (seen(item \<mapsto> True)) (result @ [item]) rest) =
        set (result @ [item]) \<union> set rest"
      by (rule Cons.IH [OF inv dist])
    then show ?thesis unfolding step by simp
  qed
qed
lemma removeDuplicates_distinct: "distinct (removeDuplicates xs)"
  and removeDuplicates_set: "set (removeDuplicates xs) = set xs"
  using removeDuplicates_loop_inv [of Map.empty "[]" xs] by (simp_all add: removeDuplicates_def)

lemma finalIPs_spec: "finalIPs ips = sorted_list_of_set (set ips)"
proof -
  have "sort (removeDuplicates ips) = sorted_list_of_set (set (removeDuplicates ips))"
    using removeDuplicates_distinct [of ips] by (simp add: sorted_list_of_set_sort_remdups distinct_remdups_id)
  then show ?thesis by (simp add: finalIPs_def sortStrings_def removeDuplicates_set)
qed

lemma finalIPs_ascending: "sorted_wrt stringLess (finalIPs ips)"
proof -
  have "sorted_wrt (<) (finalIPs ips)" by (simp add: finalIPs_spec)
  moreover have "stringLess = (<)" by (intro ext) (simp add: stringLess_iff)
  ultimately show ?thesis by simp
qed

text \<open>
  Claim C3.  Whatever addresses the loop has collected, the final list holds each of them
  once (duplicates removed under equality of strings), in strictly ascending byte-wise
  lexicographic order, and the output value is that list joined with a comma and no
  spaces; an empty collection gives the empty string.  The direct literals 10.0.0.2,
  10.0.0.10, 10.0.0.1 give \<open>10.0.0.1,10.0.0.10,10.0.0.2\<close>, also as the output of a
  whole run in list mode.
\<close>

theorem final_value_dedup_sort_join:
  "distinct (finalIPs ips) \<and> set (finalIPs ips) = set ips \<and>
   sorted_wrt stringLess (finalIPs ips) \<and>
   allowedIPsValue ips = Join (finalIPs ips) '','' \<and>
   allowedIPsValue [] = [] \<and>
   allowedIPsValue [''10.0.0.2'', ''10.0.0.10'', ''10.0.0.1''] = ''10.0.0.1,10.0.0.10,10.0.0.2'' \<and>
   main (\<lambda>name w. (Inl ''unused'', w))
     (\<lambda>path. if path = ''allowed'' then Some ([''10.0.0.2'', ''10.0.0.10'', ''10.0.0.1''], None) else None)
     () ''wg-allowedips'' [''allowed'']
   = \<lparr>exit_code = 0, stdout = [''10.0.0.1,10.0.0.10,10.0.0.2\<newline>''], stderr = []\<rparr>"
proof -
  have "distinct (finalIPs ips)" "set (finalIPs ips) = set ips"
    by (simp_all add: finalIPs_spec)
  moreover note finalIPs_ascending [of ips]
  moreover have "allowedIPsValue ips = Join (finalIPs ips) '',''"
    by (simp add: allowedIPsValue_def)
  moreover have "allowedIPsValue [] = []" by code_simp
  moreover have "allowedIPsValue [''10.0.0.2'', ''10.0.0.10'', ''10.0.0.1''] = ''10.0.0.1,10.0.0.10,10.0.0.2''"
    by code_simp
  moreover have "main (\<lambda>name w. (Inl ''unused'', w))
     (\<lambda>path. if path = ''allowed'' then Some ([''10.0.0.2'', ''10.0.0.10'', ''10.0.0.1''], None) else None)
     () ''wg-allowedips'' [''allowed'']
   = \<lparr>exit_code = 0, stdout = [''10.0.0.1,10.0.0.10,10.0.0.2\<newline>''], stderr = []\<rparr>"
    by code_simp
  ultimately show ?thesis by blast
qed

section \<open>The address test\<close>

text \<open>
  On a line without a colon the address test of the program is the specification's
  notion: \<open>parseIPv4Fields\<close> accepts exactly the dotted quads, and
  \<open>netip.ParseAddr\<close> hands a line without a colon to it or refuses the line.
\<close>

lemma Split_not_Nil: "Split s sep \<noteq> []"
proof (induction s)
  case Nil
  show ?case by simp
next
  case (Cons c cs)
  then show ?case by (cases "Split cs sep") auto
qed

lemma Split_Cons_sep: "Split (sep # cs) sep = [] # Split cs sep"
  by simp

lemma Split_Cons_other:
  assumes "c \<noteq> sep"
  shows "Split (c # cs) sep = (c # hd (Split cs sep)) # tl (Split cs sep)"
  using assms Split_not_Nil [of cs sep] by (cases "Split cs sep") auto

lemma digit_value:
  assumes "isDigit c"
  shows "0 \<le> byte c - 48 \<and> byte c - 48 \<le> 9 \<and> (byte c - 48 = 0 \<longleftrightarrow> c = CHR ''0'')"
proof -
  have "byte CHR ''0'' = 48" by (simp add: byte_def)
  moreover have "byte c = byte CHR ''0'' \<longleftrightarrow> c = CHR ''0''"
    unfolding byte_def by (metis of_char_eq_iff of_nat_of_char of_nat_eq_iff)
  ultimately show ?thesis using assms by (auto simp: isDigit_def)
qed

lemma not_digit_dot: "\<not> isDigit CHR ''.''"
  by code_simp

lemma foldl_digits_mono:
  assumes "list_all isDigit seg" and "0 \<le> v"
  shows "v \<le> foldl (\<lambda>v c. v * 10 + (byte c - 48)) v seg"
  using assms
proof (induction seg arbitrary: v)
  case Nil
  show ?case by simp
next
  case (Cons c cs)
  then have d: "0 \<le> byte c - 48" using digit_value by simp
  with Cons.prems have "0 \<le> v * 10 + (byte c - 48)" by simp
  from Cons.IH [OF _ this] Cons.prems have
    "v * 10 + (byte c - 48) \<le> foldl (\<lambda>v c. v * 10 + (byte c - 48)) (v * 10 + (byte c - 48)) cs"
    by simp
  moreover have "v \<le> v * 10 + (byte c - 48)" using d Cons.prems(2) by simp
  ultimately show ?case by simp
qed

lemma octetRest_start: "octetRest 0 0 seg \<longleftrightarrow> decimalSegment seg"
  by (auto simp: octetRest_def decimalSegment_def decimalValue_def)

lemma octetRest_Nil: "octetRest val digLen [] \<longleftrightarrow> 0 < digLen \<and> val \<le> 255"
  by (auto simp: octetRest_def)

lemma octetRest_digit:
  assumes "isDigit c" and "0 \<le> val" and "digLen = 0 \<longrightarrow> val = 0"
    and "0 < digLen \<and> val = 0 \<longrightarrow> digLen = 1"
  shows "octetRest val digLen (c # seg) \<longleftrightarrow>
     \<not> (digLen = 1 \<and> val = 0) \<and> val * 10 + (byte c - 48) \<le> 255 \<and>
     octetRest (val * 10 + (byte c - 48)) (digLen + 1) seg"
proof -
  let ?v = "val * 10 + (byte c - 48)"
  note d = digit_value [OF assms(1)]
  have nonneg: "0 \<le> ?v" using d assms(2) by simp
  have mono: "list_all isDigit seg \<Longrightarrow> ?v \<le> foldl (\<lambda>v c. v * 10 + (byte c - 48)) ?v seg"
    using foldl_digits_mono [OF _ nonneg] by simp
  show ?thesis
  proof (cases "digLen = 0")
    case True
    with assms(3) have v0: "val = 0" by simp
    show ?thesis using True v0 d assms(1) mono
      by (cases seg) (auto simp: octetRest_def)
  next
    case False
    have pos: "val \<noteq> 0 \<Longrightarrow> ?v \<noteq> 0" using d assms(2) by auto
    show ?thesis using False d assms(1,4) mono pos
      by (auto simp: octetRest_def)
  qed
qed

lemma octetRest_other:
  assumes "\<not> isDigit c"
  shows "\<not> octetRest val digLen (c # seg)"
  using assms by (simp add: octetRest_def)

lemma parseIPv4Fields_loop_accepts:
  assumes "pos \<le> 3" and "0 \<le> val" and "val \<le> 255"
    and "digLen = 0 \<longrightarrow> val = 0"
    and "0 < digLen \<and> val = 0 \<longrightarrow> digLen = 1"
    and "(prev = None \<or> prev = Some CHR ''.'') \<longleftrightarrow> digLen = 0"
    and "prev = Some CHR ''.'' \<longrightarrow> cs \<noteq> []"
    and "prev = None \<longrightarrow> pos = 0"
  shows "parseIPv4Fields_loop prev val pos digLen octets cs \<noteq> None \<longleftrightarrow>
     octetRest val digLen (hd (Split cs CHR ''.'')) \<and>
     length (tl (Split cs CHR ''.'')) = 3 - pos \<and>
     list_all decimalSegment (tl (Split cs CHR ''.''))"
  using assms
proof (induction cs arbitrary: prev val pos digLen octets)
  case Nil
  have "pos = 3 \<Longrightarrow> 0 < digLen"
    using Nil.prems(6,7,8) by auto
  with Nil.prems(1,3) show ?case
    by (auto simp: octetRest_Nil)
next
  case (Cons c cs)
  note Split.simps(2) [simp del] parseIPv4Fields_loop.simps(2) [simp del]
  let ?S = "Split cs CHR ''.''"
  show ?case
  proof (cases "isDigit c")
    case True
    then have ndot: "c \<noteq> CHR ''.''" using not_digit_dot by auto
    let ?v = "val * 10 + (byte c - 48)"
    note d = digit_value [OF True]
    have split: "Split (c # cs) CHR ''.'' = (c # hd ?S) # tl ?S"
      using ndot by (rule Split_Cons_other)
    have rest: "octetRest val digLen (c # hd ?S) \<longleftrightarrow>
        \<not> (digLen = 1 \<and> val = 0) \<and> ?v \<le> 255 \<and> octetRest ?v (digLen + 1) (hd ?S)"
      using True Cons.prems(2,4,5) by (rule octetRest_digit)
    show ?thesis
    proof (cases "(digLen = 1 \<and> val = 0) \<or> ?v > 255")
      case reject: True
      then have "parseIPv4Fields_loop prev val pos digLen octets (c # cs) = None"
        using True by (auto simp: Let_def parseIPv4Fields_loop.simps(2))
      moreover have "\<not> octetRest val digLen (c # hd ?S)"
        using reject rest by auto
      ultimately show ?thesis by (simp add: split)
    next
      case accept: False
      then have step: "parseIPv4Fields_loop prev val pos digLen octets (c # cs) =
          parseIPv4Fields_loop (Some c) ?v pos (digLen + 1) octets cs"
        using True by (auto simp: Let_def parseIPv4Fields_loop.simps(2))
      have nonneg: "0 \<le> ?v" using d Cons.prems(2) by simp
      have le: "?v \<le> 255" using accept by simp
      have zero: "0 < digLen + 1 \<and> ?v = 0 \<longrightarrow> digLen + 1 = 1"
      proof (intro impI)
        assume a: "0 < digLen + 1 \<and> ?v = 0"
        with d Cons.prems(2) have "val = 0" by auto
        with accept Cons.prems(5) have "digLen = 0" by auto
        then show "digLen + 1 = 1" by simp
      qed
      have ih: "parseIPv4Fields_loop (Some c) ?v pos (digLen + 1) octets cs \<noteq> None \<longleftrightarrow>
          octetRest ?v (digLen + 1) (hd ?S) \<and> length (tl ?S) = 3 - pos \<and>
          list_all decimalSegment (tl ?S)"
        using Cons.prems(1) nonneg le zero ndot
        by (intro Cons.IH) simp_all
      show ?thesis
        unfolding step ih split using rest accept by auto
    qed
  next
    case notdigit: False
    show ?thesis
    proof (cases "c = CHR ''.''")
      case True
      have split: "Split (c # cs) CHR ''.'' = [] # ?S" using True by (simp add: Split.simps(2))
      have ne: "?S \<noteq> []" by (rule Split_not_Nil)
      show ?thesis
      proof (cases "prev = None \<or> cs = [] \<or> prev = Some CHR ''.'' \<or> pos = 3")
        case reject: True
        then have none: "parseIPv4Fields_loop prev val pos digLen octets (c # cs) = None"
          using True notdigit by (auto simp: parseIPv4Fields_loop.simps(2))
        have "\<not> (octetRest val digLen [] \<and> length ?S = 3 - pos \<and> list_all decimalSegment ?S)"
        proof (cases "cs = []")
          case True
          then have "\<not> list_all decimalSegment ?S" by (simp add: decimalSegment_def)
          then show ?thesis by simp
        next
          case False
          with reject consider "digLen = 0" | "pos = 3"
            using Cons.prems(6) by auto
          then show ?thesis
          proof cases
            case 1
            then show ?thesis by (simp add: octetRest_Nil)
          next
            case 2
            then show ?thesis using ne by simp
          qed
        qed
        with none show ?thesis by (simp add: split)
      next
        case accept: False
        then have step: "parseIPv4Fields_loop prev val pos digLen octets (c # cs) =
            parseIPv4Fields_loop (Some c) 0 (pos + 1) 0 (octets @ [val]) cs"
          using True notdigit by (auto simp: parseIPv4Fields_loop.simps(2))
        have pos: "pos + 1 \<le> 3" using accept Cons.prems(1) by simp
        have ih: "parseIPv4Fields_loop (Some c) 0 (pos + 1) 0 (octets @ [val]) cs \<noteq> None \<longleftrightarrow>
            octetRest 0 0 (hd ?S) \<and> length (tl ?S) = 3 - (pos + 1) \<and>
            list_all decimalSegment (tl ?S)"
          using pos accept True by (intro Cons.IH) simp_all
        have dl: "0 < digLen" using accept Cons.prems(6) by auto
        have whole: "octetRest 0 0 (hd ?S) \<and> length (tl ?S) = 3 - (pos + 1) \<and>
            list_all decimalSegment (tl ?S) \<longleftrightarrow>
            length ?S = 3 - pos \<and> list_all decimalSegment ?S"
          using ne pos by (cases ?S) (auto simp: octetRest_start)
        show ?thesis
          unfolding step ih whole split using dl Cons.prems(3) by (simp add: octetRest_Nil)
      qed
    next
      case False
      then have "parseIPv4Fields_loop prev val pos digLen octets (c # cs) = None"
        using notdigit by (simp add: parseIPv4Fields_loop.simps(2))
      moreover have "Split (c # cs) CHR ''.'' = (c # hd ?S) # tl ?S"
        using False by (rule Split_Cons_other)
      moreover have "\<not> octetRest val digLen (c # hd ?S)"
        using notdigit by (rule octetRest_other)
      ultimately show ?thesis by simp
    qed
  qed
qed

lemma parseIPv4Fields_accepts: "parseIPv4Fields s \<noteq> None \<longleftrightarrow> dottedQuad s"
proof -
  have ne: "Split s CHR ''.'' \<noteq> []" by (rule Split_not_Nil)
  have "parseIPv4Fields s \<noteq> None \<longleftrightarrow>
      octetRest 0 0 (hd (Split s CHR ''.'')) \<and> length (tl (Split s CHR ''.'')) = 3 - 0 \<and>
      list_all decimalSegment (tl (Split s CHR ''.''))"
    unfolding parseIPv4Fields_def by (intro parseIPv4Fields_loop_accepts) simp_all
  also have "\<dots> \<longleftrightarrow> dottedQuad s"
    using ne by (cases "Split s CHR ''.''") (auto simp: dottedQuad_def octetRest_start)
  finally show ?thesis .
qed

lemma parseIPv4Fields_loop_length:
  assumes "parseIPv4Fields_loop prev val pos digLen octets cs = Some r"
    and "length octets = pos" and "pos \<le> 3"
  shows "length r = 4"
  using assms
proof (induction cs arbitrary: prev val pos digLen octets)
  case Nil
  then show ?case by (auto split: if_splits)
next
  case (Cons c cs)
  show ?case
  proof (cases "isDigit c")
    case True
    with Cons.prems(1) have
      "parseIPv4Fields_loop (Some c) (val * 10 + (byte c - 48)) pos (digLen + 1) octets cs = Some r"
      by (auto simp: Let_def split: if_splits)
    from Cons.IH [OF this Cons.prems(2,3)] show ?thesis .
  next
    case False
    with Cons.prems(1) have dot: "c = CHR ''.''" and p: "pos \<noteq> 3"
      and step: "parseIPv4Fields_loop (Some c) 0 (pos + 1) 0 (octets @ [val]) cs = Some r"
      by (auto split: if_splits)
    have "length (octets @ [val]) = pos + 1" using Cons.prems(2) by simp
    moreover have "pos + 1 \<le> 3" using p Cons.prems(3) by simp
    ultimately show ?thesis using Cons.IH [OF step] by blast
  qed
qed

lemma parseIPv4Fields_length:
  assumes "parseIPv4Fields s = Some r"
  shows "length r = 4"
  using assms unfolding parseIPv4Fields_def
  by (rule parseIPv4Fields_loop_length) simp_all

lemma ParseAddr_scan_no_colon:
  assumes "CHR '':'' \<notin> set cs"
  shows "ParseAddr_scan s cs = None \<or> ParseAddr_scan s cs = parseIPv4 s"
  using assms by (induction cs) auto

lemma digit_not_mark:
  assumes "isDigit c"
  shows "c \<noteq> CHR ''.'' \<and> c \<noteq> CHR '':'' \<and> c \<noteq> CHR ''%''"
proof -
  have "\<not> isDigit CHR ''.''" "\<not> isDigit CHR '':''" "\<not> isDigit CHR ''%''"
    by code_simp+
  with assms show ?thesis by auto
qed

lemma ParseAddr_scan_digits_dots:
  assumes "list_all (\<lambda>c. isDigit c \<or> c = CHR ''.'') cs" and "CHR ''.'' \<in> set cs"
  shows "ParseAddr_scan s cs = parseIPv4 s"
  using assms
proof (induction cs)
  case Nil
  then show ?case by simp
next
  case (Cons c cs)
  show ?case
  proof (cases "c = CHR ''.''")
    case True
    then show ?thesis by simp
  next
    case False
    with Cons.prems have "isDigit c" and "list_all (\<lambda>c. isDigit c \<or> c = CHR ''.'') cs"
      and "CHR ''.'' \<in> set cs"
      by auto
    with Cons.IH digit_not_mark [of c] show ?thesis by simp
  qed
qed

lemma Split_no_sep:
  assumes "sep \<notin> set s"
  shows "Split s sep = [s]"
  using assms by (induction s) auto

lemma Split_all_chars:
  assumes "list_all (list_all P) (Split s sep)"
  shows "list_all (\<lambda>c. P c \<or> c = sep) s"
  using assms
proof (induction s)
  case Nil
  show ?case by simp
next
  case (Cons c cs)
  show ?case
  proof (cases "c = sep")
    case True
    with Cons show ?thesis by simp
  next
    case False
    then have "Split (c # cs) sep = (c # hd (Split cs sep)) # tl (Split cs sep)"
      by (rule Split_Cons_other)
    with Cons.prems have "P c" and "list_all (list_all P) (hd (Split cs sep) # tl (Split cs sep))"
      by simp_all
    then have "P c" and "list_all (list_all P) (Split cs sep)"
      using Split_not_Nil [of cs sep] by simp_all
    with Cons.IH show ?thesis by simp
  qed
qed

lemma dottedQuad_chars:
  assumes "dottedQuad s"
  shows "list_all (\<lambda>c. isDigit c \<or> c = CHR ''.'') s \<and> CHR ''.'' \<in> set s"
proof -
  from assms have len: "length (Split s CHR ''.'') = 4"
    and segs: "list_all decimalSegment (Split s CHR ''.'')"
    by (simp_all add: dottedQuad_def)
  from segs have "list_all (list_all isDigit) (Split s CHR ''.'')"
    by (simp add: list_all_iff decimalSegment_def)
  then have "list_all (\<lambda>c. isDigit c \<or> c = CHR ''.'') s" by (rule Split_all_chars)
  moreover have "CHR ''.'' \<in> set s"
  proof (rule ccontr)
    assume "CHR ''.'' \<notin> set s"
    then have "Split s CHR ''.'' = [s]" by (rule Split_no_sep)
    with len show False by simp
  qed
  ultimately show ?thesis by simp
qed

lemma To4_mapped:
  assumes "length r = 4"
  shows "To4 (replicate 10 0 @ [255, 255] @ r) = Some r"
proof -
  have "replicate 10 (0::int) = [0, 0, 0, 0, 0, 0, 0, 0, 0, 0]" by code_simp
  then show ?thesis using assms by (simp add: To4_def)
qed

lemma ParseIP_To4_no_colon:
  assumes "CHR '':'' \<notin> set s"
  shows "(case ParseIP s of None \<Rightarrow> False | Some ip \<Rightarrow> To4 ip \<noteq> None) \<longleftrightarrow> dottedQuad s"
proof
  assume l: "case ParseIP s of None \<Rightarrow> False | Some ip \<Rightarrow> To4 ip \<noteq> None"
  then have "ParseAddr s \<noteq> None" by (auto simp: ParseIP_def split: option.splits)
  with ParseAddr_scan_no_colon [OF assms, of s] have "parseIPv4 s \<noteq> None"
    by (auto simp: ParseAddr_def)
  then have "parseIPv4Fields s \<noteq> None" by (simp add: parseIPv4_def)
  with parseIPv4Fields_accepts [of s] show "dottedQuad s" by blast
next
  assume d: "dottedQuad s"
  then obtain r where r: "parseIPv4Fields s = Some r"
    using parseIPv4Fields_accepts [of s] by auto
  from dottedQuad_chars [OF d] have "ParseAddr s = parseIPv4 s"
    by (simp add: ParseAddr_def ParseAddr_scan_digits_dots)
  with r have "ParseIP s = Some (replicate 10 0 @ [255, 255] @ r)"
    by (simp add: ParseIP_def parseIPv4_def)
  with To4_mapped [OF parseIPv4Fields_length [OF r]]
  show "case ParseIP s of None \<Rightarrow> False | Some ip \<Rightarrow> To4 ip \<noteq> None"
    by simp
qed

lemma isValidIPv4_no_colon:
  assumes "CHR '':'' \<notin> set s"
  shows "isValidIPv4 s \<longleftrightarrow> dottedQuad s"
proof
  assume "isValidIPv4 s"
  then have "case ParseIP s of None \<Rightarrow> False | Some ip \<Rightarrow> To4 ip \<noteq> None"
    by (auto simp: isValidIPv4_def split: option.splits if_splits)
  then show "dottedQuad s" by (simp add: ParseIP_To4_no_colon [OF assms])
next
  assume d: "dottedQuad s"
  then have p: "case ParseIP s of None \<Rightarrow> False | Some ip \<Rightarrow> To4 ip \<noteq> None"
    by (simp add: ParseIP_To4_no_colon [OF assms])
  from d have len: "length (Split s CHR ''.'') = 4"
    and segs: "list_all decimalSegment (Split s CHR ''.'')"
    by (simp_all add: dottedQuad_def)
  have "\<not> (length part > 1 \<and> part ! 0 = CHR ''0'')" if "decimalSegment part" for part
    using that by (cases part) (auto simp: decimalSegment_def)
  with segs have "list_all (\<lambda>part. \<not> (length part > 1 \<and> part ! 0 = CHR ''0'')) (Split s CHR ''.'')"
    by (simp add: list_all_iff)
  with p len show "isValidIPv4 s"
    by (auto simp: isValidIPv4_def Let_def split: option.splits)
qed

lemma keepAnswer_no_colon:
  assumes "CHR '':'' \<notin> set line"
  shows "keepAnswer line \<longleftrightarrow> dottedQuad line"
proof -
  have "dottedQuad line \<Longrightarrow> line \<noteq> []"
    using dottedQuad_chars [of line] by auto
  then show ?thesis
    using ParseIP_To4_no_colon [OF assms] by (auto simp: keepAnswer_def)
qed

text \<open>
  Claim C1.  The claim says that a line is classified \<open>LiteralAddress\<close> only when it
  has the 4-dotted-decimal shape.  That holds for every line without a colon
  (\<open>isValidIPv4_no_colon\<close>).  But the program classifies the IPv4-mapped IPv6 form
  \<open>::ffff:1.2.3.4\<close> as \<open>LiteralAddress\<close>: \<open>net.ParseIP\<close> accepts it, \<open>To4\<close>
  gives its last four bytes, and splitting at the dots gives the four pieces
  \<open>::ffff:1\<close>, \<open>2\<close>, \<open>3\<close>, \<open>4\<close>, none with a leading zero.  The line is not a
  dotted quad, and a run in list mode prints it.
\<close>

theorem mapped_address_classified_LiteralAddress:
  "classify ''::ffff:1.2.3.4'' = LiteralAddress \<and>
   \<not> dottedQuad ''::ffff:1.2.3.4'' \<and>
   isEntry ''::ffff:1.2.3.4'' \<and>
   main (\<lambda>name w. (Inl ''unused'', w))
     (\<lambda>path. if path = ''allowed'' then Some ([''::ffff:1.2.3.4''], None) else None)
     () ''wg-allowedips'' [''allowed'']
   = \<lparr>exit_code = 0, stdout = [''::ffff:1.2.3.4\<newline>''], stderr = []\<rparr>"
  by code_simp

text \<open>
  Claim C4.  The claim says that the resolver keeps exactly the output lines that are
  4-dotted-decimal addresses.  That holds for every line without a colon
  (\<open>keepAnswer_no_colon\<close>): a CNAME answer is dropped.  But the resolver keeps every
  line that \<open>net.ParseIP\<close> accepts and \<open>To4\<close> maps to four bytes, with no test of
  the shape, so it keeps the IPv4-mapped IPv6 forms \<open>::ffff:1.2.3.4\<close> and
  \<open>::ffff:102:304\<close>, which are not dotted quads.
\<close>

theorem resolver_keeps_mapped_address:
  "resolveHostname (\<lambda>name w. (Inr ''cname.example.org.\<newline>::ffff:1.2.3.4\<newline>::ffff:102:304\<newline>'', w)) ''example.com'' ()
     = (Inr [''::ffff:1.2.3.4'', ''::ffff:102:304''], ()) \<and>
   \<not> dottedQuad ''::ffff:1.2.3.4'' \<and> \<not> dottedQuad ''::ffff:102:304''"
  by code_simp

section \<open>The emitter\<close>

lemma HasPrefix_iff: "HasPrefix s p \<longleftrightarrow> (\<exists>rest. s = p @ rest)"
  by (induction s p rule: HasPrefix.induct) auto

lemma main_list_mode:
  assumes "fs cfg = Some (entries, None)"
    and "scanEntries dig (initialState w) entries = Inr st"
  shows "main dig fs w prog [cfg] = emitOutput fs (diag st) (allIPs st) []"
  using assms by (simp add: main_def)

lemma main_substitution_mode:
  assumes "fs cfg = Some (entries, None)"
    and "scanEntries dig (initialState w) entries = Inr st"
  shows "main dig fs w prog [cfg, wg] = emitOutput fs (diag st) (allIPs st) wg"
  using assms by (simp add: main_def)

lemma emitOutput_template:
  assumes "wg \<noteq> []" and "fs wg = Some (wgLines, wgErr)"
  shows "stdout (emitOutput fs errs ips wg) = map (emitLine (allowedIPsValue ips)) wgLines"
  using assms by (cases wgErr) (simp_all add: emitOutput_def)

lemma stdout_substitution_mode:
  assumes "fs cfg = Some (entries, None)"
    and "scanEntries dig (initialState w) entries = Inr st"
    and "wg \<noteq> []" and "fs wg = Some (wgLines, wgErr)"
  shows "stdout (main dig fs w prog [cfg, wg]) = map (emitLine (allowedIPsValue (allIPs st))) wgLines"
  using assms by (simp add: main_substitution_mode emitOutput_template)

text \<open>
  Claim C5.  In substitution mode, when the allow-list has been read to its end, one
  line is written for each line of the template, and for every template line whose
  trimmed form starts with \<open>AllowedIPs\<close> (whatever follows, and wherever the line
  stands in the file) the line written is \<open>AllowedIPs = \<close> followed by the joined
  string.
\<close>

theorem every_matching_line_replaced:
  assumes "fs cfg = Some (entries, None)"
    and "scanEntries dig (initialState w) entries = Inr st"
    and "wg \<noteq> []" and "fs wg = Some (wgLines, wgErr)"
    and "i < length wgLines"
    and "TrimSpace (wgLines ! i) = ''AllowedIPs'' @ rest"
  shows "length (stdout (main dig fs w prog [cfg, wg])) = length wgLines \<and>
         stdout (main dig fs w prog [cfg, wg]) ! i =
           ''AllowedIPs = '' @ allowedIPsValue (allIPs st) @ ''\<newline>''"
proof -
  have "HasPrefix (TrimSpace (wgLines ! i)) ''AllowedIPs''"
    using assms(6) HasPrefix_iff by blast
  then have "emitLine (allowedIPsValue (allIPs st)) (wgLines ! i) =
      ''AllowedIPs = '' @ allowedIPsValue (allIPs st) @ ''\<newline>''"
    by (simp add: emitLine_def)
  then show ?thesis
    using assms(5) by (simp add: stdout_substitution_mode [OF assms(1-4)])
qed

theorem every_matching_line_replaced_witness:
  "stdout (main (\<lambda>name w. (Inl ''unused'', w))
     (\<lambda>path. if path = ''allowed'' then Some ([''10.0.0.2'', ''10.0.0.1''], None)
             else if path = ''wg0.conf''
               then Some ([''[Peer]'', ''  AllowedIPs = 0.0.0.0/0'', ''AllowedIPsX = 1.2.3.4''], None)
             else None)
     () ''wg-allowedips'' [''allowed'', ''wg0.conf'']) ! 2 = ''AllowedIPs = 10.0.0.1,10.0.0.2\<newline>''"
proof -
  let ?dig = "\<lambda>(name::string) (w::unit). (Inl ''unused'' :: string + string, w)"
  let ?fs = "\<lambda>path. if path = ''allowed'' then Some ([''10.0.0.2'', ''10.0.0.1''], None)
             else if path = ''wg0.conf''
               then Some ([''[Peer]'', ''  AllowedIPs = 0.0.0.0/0'', ''AllowedIPsX = 1.2.3.4''], None)
             else None"
  let ?st = "\<lparr>lineNum = 2, allIPs = [''10.0.0.2'', ''10.0.0.1''], diag = [], world = ()\<rparr>"
  have h1: "?fs ''allowed'' = Some ([''10.0.0.2'', ''10.0.0.1''], None)" by simp
  have h2: "scanEntries ?dig (initialState ()) [''10.0.0.2'', ''10.0.0.1''] = Inr ?st"
    by code_simp
  have h3: "''wg0.conf'' \<noteq> []" by simp
  have h4: "?fs ''wg0.conf'' =
      Some ([''[Peer]'', ''  AllowedIPs = 0.0.0.0/0'', ''AllowedIPsX = 1.2.3.4''], None)" by simp
  have h5: "2 < length [''[Peer]'', ''  AllowedIPs = 0.0.0.0/0'', ''AllowedIPsX = 1.2.3.4'']" by simp
  have h6: "TrimSpace ([''[Peer]'', ''  AllowedIPs = 0.0.0.0/0'', ''AllowedIPsX = 1.2.3.4''] ! 2)
      = ''AllowedIPs'' @ ''X = 1.2.3.4''" by code_simp
  have v: "allowedIPsValue (allIPs ?st) = ''10.0.0.1,10.0.0.2''" by code_simp
  from every_matching_line_replaced [OF h1 h2 h3 h4 h5 h6, of "''wg-allowedips''"]
  show ?thesis unfolding v by simp
qed

lemma concat_addToFirst: "concat (addToFirst c xs) = c # concat xs"
  by (cases xs) simp_all

lemma concat_fileLines: "concat (fileLines data) = data"
  by (induction data) (simp_all add: concat_addToFirst)








text \<open>
  Claim C10.  In substitution mode, when the final collection of addresses is empty, the
  joined string is empty and every template line whose trimmed form starts with
  \<open>AllowedIPs\<close> is still replaced, by \<open>AllowedIPs = \<close> with nothing after the
  space.
\<close>

theorem empty_collection_still_substituted:
  assumes "fs cfg = Some (entries, None)"
    and "scanEntries dig (initialState w) entries = Inr st"
    and "finalIPs (allIPs st) = []"
    and "wg \<noteq> []" and "fs wg = Some (wgLines, wgErr)"
    and "i < length wgLines"
    and "HasPrefix (TrimSpace (wgLines ! i)) ''AllowedIPs''"
  shows "allowedIPsValue (allIPs st) = [] \<and>
         stdout (main dig fs w prog [cfg, wg]) ! i = ''AllowedIPs = \<newline>''"
proof -
  have v: "allowedIPsValue (allIPs st) = []"
    using assms(3) by (simp add: allowedIPsValue_def)
  have "emitLine (allowedIPsValue (allIPs st)) (wgLines ! i) = ''AllowedIPs = \<newline>''"
    using assms(7) by (simp add: emitLine_def v)
  then show ?thesis
    using assms(6) v by (simp add: stdout_substitution_mode [OF assms(1,2,4,5)])
qed

theorem empty_collection_still_substituted_witness:
  "stdout (main (\<lambda>name w. (Inl ''exit status 9'', w))
     (\<lambda>path. if path = ''allowed'' then Some ([''# nothing yet'', '''', ''vpn.example.com''], None)
             else if path = ''wg0.conf''
               then Some ([''[Peer]'', ''AllowedIPs = 0.0.0.0/0''], None)
             else None)
     () ''wg-allowedips'' [''allowed'', ''wg0.conf'']) ! 1 = ''AllowedIPs = \<newline>''"
proof -
  let ?dig = "\<lambda>(name::string) (w::unit). (Inl ''exit status 9'' :: string + string, w)"
  let ?fs = "\<lambda>path. if path = ''allowed'' then Some ([''# nothing yet'', '''', ''vpn.example.com''], None)
             else if path = ''wg0.conf''
               then Some ([''[Peer]'', ''AllowedIPs = 0.0.0.0/0''], None)
             else None"
  let ?st = "\<lparr>lineNum = 3, allIPs = [],
      diag = [warnMsg ''Line 3: Failed to resolve hostname vpn.example.com: exit status 9''],
      world = ()\<rparr>"
  have h1: "?fs ''allowed'' = Some ([''# nothing yet'', '''', ''vpn.example.com''], None)" by simp
  have h2: "scanEntries ?dig (initialState ()) [''# nothing yet'', '''', ''vpn.example.com''] = Inr ?st"
    by code_simp
  have h3: "finalIPs (allIPs ?st) = []" by code_simp
  have h4: "''wg0.conf'' \<noteq> []" by simp
  have h5: "?fs ''wg0.conf'' = Some ([''[Peer]'', ''AllowedIPs = 0.0.0.0/0''], None)" by simp
  have h6: "1 < length [''[Peer]'', ''AllowedIPs = 0.0.0.0/0'']" by simp
  have h7: "HasPrefix (TrimSpace ([''[Peer]'', ''AllowedIPs = 0.0.0.0/0''] ! 1)) ''AllowedIPs''"
    by code_simp
  from empty_collection_still_substituted [OF h1 h2 h3 h4 h5 h6 h7, of "''wg-allowedips''"]
  show ?thesis by simp
qed

section \<open>The bytes of the diagnostics\<close>

text \<open>
  \<open>itoa\<close> writes the decimal numeral of its argument, and the messages of the loop are
  the following bytes.
\<close>

lemma byte_char_of:
  assumes "k < 256"
  shows "byte (char_of k) = int k"
proof -
  have "(of_char (char_of k) :: int) = int (of_char (char_of k))"
    by (simp only: of_nat_of_char)
  moreover have "(of_char (char_of k) :: nat) = k mod 256"
    by (rule of_char_of)
  ultimately show ?thesis using assms by (simp add: byte_def)
qed

lemma digit_char:
  assumes "d < 10"
  shows "isDigit (char_of (48 + d)) \<and> byte (char_of (48 + d)) - 48 = int d"
  using assms byte_char_of [of "48 + d"] by (simp add: isDigit_def)

lemma decimalValue_snoc: "decimalValue (num @ [c]) = decimalValue num * 10 + (byte c - 48)"
  by (simp add: decimalValue_def)

lemma itoa_digits: "itoa n \<noteq> [] \<and> list_all isDigit (itoa n) \<and> decimalValue (itoa n) = int n"
proof (induction n rule: itoa.induct)
  case (1 n)
  show ?case
  proof (cases "n < 10")
    case True
    then have "itoa n = [char_of (48 + n)]" by (subst itoa.simps) simp
    with digit_char [OF True] show ?thesis by (simp add: decimalValue_def)
  next
    case False
    then have eq: "itoa n = itoa (n div 10) @ [char_of (48 + n mod 10)]"
      by (subst itoa.simps) simp
    have d: "isDigit (char_of (48 + n mod 10)) \<and> byte (char_of (48 + n mod 10)) - 48 = int (n mod 10)"
      by (rule digit_char) simp
    have "int (n div 10) * 10 + int (n mod 10) = int n"
      by (simp add: zdiv_int zmod_int) 
    with "1.IH" [OF False] d show ?thesis
      unfolding eq by (simp add: decimalValue_snoc)
  qed
qed

lemma itoa_leading:
  assumes "0 < n"
  shows "hd (itoa n) \<noteq> CHR ''0''"
  using assms
proof (induction n rule: itoa.induct)
  case (1 n)
  show ?case
  proof (cases "n < 10")
    case True
    then have eq: "itoa n = [char_of (48 + n)]" by (subst itoa.simps) simp
    have "byte (char_of (48 + n)) - 48 = int n" using digit_char [OF True] by simp
    moreover have "byte CHR ''0'' = 48" by (simp add: byte_def)
    ultimately have "char_of (48 + n) \<noteq> CHR ''0''" using "1.prems" by auto
    then show ?thesis by (simp add: eq)
  next
    case False
    then have eq: "itoa n = itoa (n div 10) @ [char_of (48 + n mod 10)]"
      by (subst itoa.simps) simp
    from False have "0 < n div 10" by simp
    with "1.IH" [OF False] have "hd (itoa (n div 10)) \<noteq> CHR ''0''" by simp
    moreover have "itoa (n div 10) \<noteq> []" using itoa_digits by simp
    ultimately show ?thesis by (simp add: eq)
  qed
qed

lemma itoa_length:
  assumes "n < 10"
  shows "length (itoa n) = 1"
  using assms by (subst itoa.simps) simp

lemma decimalOf_itoa: "decimalOf n (itoa n)"
proof (cases "n = 0")
  case True
  then show ?thesis using itoa_digits [of n] itoa_length [of n] by (simp add: decimalOf_def)
next
  case False
  then show ?thesis using itoa_digits [of n] itoa_leading [of n] by (simp add: decimalOf_def)
qed

lemma errorMsg_bytes:
  "errorMsg (''Line '' @ num @ '': Invalid entry (not an IPv4 or hostname): '' @ line) =
   CHR 0x1B # ''[0;31mERROR: Line '' @ num @ '': Invalid entry (not an IPv4 or hostname): '' @
     line @ CHR 0x1B # ''[0m\<newline>''"
  by (simp add: errorMsg_def colorRed_def colorReset_def)



section \<open>The loop over the allow-list\<close>

lemma processLine_skip:
  assumes "\<not> isEntry text"
  shows "processLine dig st text = Inr (st\<lparr>lineNum := lineNum st + 1\<rparr>)"
  using assms by (auto simp: processLine_def isEntry_def Let_def)

lemma scanEntries_skip:
  assumes "list_all (\<lambda>text. \<not> isEntry text) entries"
  shows "scanEntries dig st entries = Inr (st\<lparr>lineNum := lineNum st + length entries\<rparr>)"
  using assms
proof (induction entries arbitrary: st)
  case Nil
  then show ?case by simp
next
  case (Cons t rest)
  then have "\<not> isEntry t" and r: "list_all (\<lambda>text. \<not> isEntry text) rest" by simp_all
  then have "scanEntries dig st (t # rest) =
      scanEntries dig (st\<lparr>lineNum := lineNum st + 1\<rparr>) rest"
    by (simp add: processLine_skip)
  with Cons.IH [OF r] show ?case by simp
qed

lemma scanEntries_append:
  "scanEntries dig st (pre @ post) =
     (case scanEntries dig st pre of Inl errs \<Rightarrow> Inl errs | Inr st' \<Rightarrow> scanEntries dig st' post)"
  by (induction pre arbitrary: st) (simp_all split: sum.split)

lemma addToFirst_head: "\<exists>piece pieces. addToFirst c xs = (c # piece) # pieces"
  by (cases xs) simp_all

lemma isValidHostname_first:
  assumes "isValidHostname s"
  shows "s \<noteq> [] \<and> isAlnum (hd s)"
proof (cases s)
  case Nil
  with assms show ?thesis by (simp add: isValidHostname_def)
next
  case (Cons c cs)
  from assms have labels:
    "list_all (\<lambda>label. \<not> (length label = 0 \<or> length label > 63) \<and> labelPattern label)
       (Split s CHR ''.'')"
    by (simp add: isValidHostname_def split: if_splits)
  show ?thesis
  proof (cases "c = CHR ''.''")
    case True
    with labels Cons show ?thesis by simp
  next
    case False
    obtain piece pieces where "addToFirst c (Split cs CHR ''.'') = (c # piece) # pieces"
      using addToFirst_head by blast
    with False Cons have "Split s CHR ''.'' = (c # piece) # pieces" by simp
    with labels have "labelPattern (c # piece)" by simp
    then have "isAlnum c" by (simp add: labelPattern_def)
    with Cons show ?thesis by simp
  qed
qed

lemma not_isAlnum_hash: "\<not> isAlnum CHR ''#''"
  by code_simp

lemma DomainName_isEntry:
  assumes "classify line = DomainName"
  shows "line \<noteq> [] \<and> \<not> HasPrefix line ''#'' \<and> \<not> isValidIPv4 line \<and> isValidHostname line"
proof -
  from assms have v: "\<not> isValidIPv4 line" and h: "isValidHostname line"
    by (simp_all add: classify_def split: if_splits)
  from isValidHostname_first [OF h] obtain c cs where l: "line = c # cs" and a: "isAlnum c"
    by (cases line) auto
  from a not_isAlnum_hash have "c \<noteq> CHR ''#''" by auto
  with l v h show ?thesis by simp
qed

lemma processLine_DomainName:
  assumes "classify (TrimSpace t) = DomainName"
  shows "processLine dig st t =
     (case resolveHostname dig (TrimSpace t) (world st) of
        (Inl err, w') \<Rightarrow>
          Inr (st\<lparr>lineNum := lineNum st + 1,
                diag := diag st @
                  [warnMsg (''Line '' @ itoa (lineNum st + 1) @ '': Failed to resolve hostname '' @
                            TrimSpace t @ '': '' @ err)],
                world := w'\<rparr>)
      | (Inr resolvedIPs, w') \<Rightarrow>
          if resolvedIPs = [] then
            Inr (st\<lparr>lineNum := lineNum st + 1,
                  diag := diag st @
                    [warnMsg (''Line '' @ itoa (lineNum st + 1) @ '': No DNS results for hostname: '' @
                              TrimSpace t)],
                  world := w'\<rparr>)
          else Inr (st\<lparr>lineNum := lineNum st + 1, allIPs := allIPs st @ resolvedIPs,
                     world := w'\<rparr>))"
  using DomainName_isEntry [OF assms]
  by (simp add: processLine_def Let_def split: prod.split sum.split)




lemma processLine_invalid:
  assumes "invalidEntry t"
  shows "processLine dig st t =
     Inl (diag st @
       [errorMsg (''Line '' @ itoa (lineNum st + 1) @
                  '': Invalid entry (not an IPv4 or hostname): '' @ TrimSpace t)])"
  using assms
  by (simp add: invalidEntry_def isEntry_def classify_def processLine_def Let_def split: if_splits)

lemma isWarning_warnMsg: "isWarning (warnMsg body)"
  by (simp add: isWarning_def warnMsg_def colorYellow_def HasPrefix_iff)

lemma processLine_not_invalid:
  assumes "\<not> invalidEntry t"
  shows "\<exists>st' ws. processLine dig st t = Inr st' \<and> lineNum st' = lineNum st + 1 \<and>
           diag st' = diag st @ ws \<and> warningsOnly ws"
proof (cases "isEntry t")
  case False
  then show ?thesis by (simp add: processLine_skip warningsOnly_def)
next
  case True
  with assms have notinv: "classify (TrimSpace t) \<noteq> Invalid" by (simp add: invalidEntry_def)
  show ?thesis
  proof (cases "isValidIPv4 (TrimSpace t)")
    case v4: True
    with True show ?thesis
      by (simp add: processLine_def Let_def isEntry_def warningsOnly_def)
  next
    case False
    with notinv have "classify (TrimSpace t) = DomainName"
      by (simp add: classify_def split: if_splits)
    then show ?thesis
      by (auto simp: processLine_DomainName warningsOnly_def isWarning_warnMsg
          split: prod.split sum.split)
  qed
qed

lemma warningsOnly_append: "warningsOnly (xs @ ys) \<longleftrightarrow> warningsOnly xs \<and> warningsOnly ys"
  by (auto simp: warningsOnly_def)

lemma scanEntries_no_invalid:
  assumes "list_all (\<lambda>t. \<not> invalidEntry t) entries"
  shows "\<exists>st' ws. scanEntries dig st entries = Inr st' \<and>
           lineNum st' = lineNum st + length entries \<and>
           diag st' = diag st @ ws \<and> warningsOnly ws"
  using assms
proof (induction entries arbitrary: st)
  case Nil
  then show ?case by (simp add: warningsOnly_def)
next
  case (Cons t rest)
  then have "\<not> invalidEntry t" and r: "list_all (\<lambda>t. \<not> invalidEntry t) rest" by simp_all
  then obtain st1 ws1 where 1: "processLine dig st t = Inr st1" "lineNum st1 = lineNum st + 1"
      "diag st1 = diag st @ ws1" "warningsOnly ws1"
    using processLine_not_invalid by blast
  from Cons.IH [OF r, of st1] obtain st2 ws2 where 2: "scanEntries dig st1 rest = Inr st2"
      "lineNum st2 = lineNum st1 + length rest" "diag st2 = diag st1 @ ws2" "warningsOnly ws2"
    by blast
  have "scanEntries dig st (t # rest) = Inr st2" using 1(1) 2(1) by simp
  moreover have "lineNum st2 = lineNum st + length (t # rest)" using 1(2) 2(2) by simp
  moreover have "diag st2 = diag st @ (ws1 @ ws2)" using 1(3) 2(3) by simp
  moreover have "warningsOnly (ws1 @ ws2)" using 1(4) 2(4) by (simp add: warningsOnly_append)
  ultimately show ?case by blast
qed

lemma first_invalid_entry_aborts:
  assumes "length args = 1 \<or> length args = 2"
    and "fs (args ! 0) = Some (entries, readErr)"
    and "i < length entries"
    and "list_all (\<lambda>t. \<not> invalidEntry t) (take i entries)"
    and "invalidEntry (entries ! i)"
  shows "exit_code (main dig fs w prog args) = 1 \<and>
         stdout (main dig fs w prog args) = [] \<and>
         (\<exists>warnings. warningsOnly warnings \<and>
            stderr (main dig fs w prog args) =
              warnings @
              [errorMsg (''Line '' @ itoa (i + 1) @ '': Invalid entry (not an IPv4 or hostname): '' @
                         TrimSpace (entries ! i))])"
proof -
  obtain st' ws where pre: "scanEntries dig (initialState w) (take i entries) = Inr st'"
      and n: "lineNum st' = lineNum (initialState w) + length (take i entries)"
      and d: "diag st' = diag (initialState w) @ ws" and wo: "warningsOnly ws"
    using scanEntries_no_invalid [OF assms(4)] by blast
  have split: "entries = take i entries @ entries ! i # drop (Suc i) entries"
    using assms(3) by (simp add: id_take_nth_drop)
  have n': "lineNum st' = i" using n assms(3) by (simp add: initialState_def)
  have d': "diag st' = ws" using d by (simp add: initialState_def)
  have "scanEntries dig (initialState w) entries =
      scanEntries dig st' (entries ! i # drop (Suc i) entries)"
    by (subst split) (simp add: scanEntries_append pre)
  then have scan: "scanEntries dig (initialState w) entries =
      Inl (ws @ [errorMsg (''Line '' @ itoa (i + 1) @
                 '': Invalid entry (not an IPv4 or hostname): '' @ TrimSpace (entries ! i))])"
    by (simp add: processLine_invalid [OF assms(5)] n' d')
  have "main dig fs w prog args =
      \<lparr>exit_code = 1, stdout = [],
       stderr = ws @ [errorMsg (''Line '' @ itoa (i + 1) @
                 '': Invalid entry (not an IPv4 or hostname): '' @ TrimSpace (entries ! i))]\<rparr>"
    using assms(1,2) by (auto simp: main_def scan)
  with wo show ?thesis by auto
qed

lemma take_no_invalid:
  assumes "\<forall>m<k. \<not> invalidEntry (entries ! m)" and "k \<le> length entries"
  shows "list_all (\<lambda>t. \<not> invalidEntry t) (take k entries)"
  using assms by (auto simp: list_all_iff in_set_conv_nth)

lemma invalid_entry_aborts:
  assumes "length args = 1 \<or> length args = 2"
    and "fs (args ! 0) = Some (entries, readErr)"
    and "i < length entries"
    and "invalidEntry (entries ! i)"
  shows "exit_code (main dig fs w prog args) = 1 \<and>
         stdout (main dig fs w prog args) = [] \<and>
         (list_all (\<lambda>t. \<not> invalidEntry t) (take i entries) \<longrightarrow>
           (\<exists>warnings. warningsOnly warnings \<and>
              stderr (main dig fs w prog args) =
                warnings @
                [errorMsg (''Line '' @ itoa (i + 1) @
                           '': Invalid entry (not an IPv4 or hostname): '' @
                           TrimSpace (entries ! i))]))"
proof -
  define k where "k = (LEAST k. k < length entries \<and> invalidEntry (entries ! k))"
  have ex: "i < length entries \<and> invalidEntry (entries ! i)" using assms(3,4) by simp
  have k: "k < length entries \<and> invalidEntry (entries ! k)"
    unfolding k_def using ex by (rule LeastI)
  have "\<not> (m < length entries \<and> invalidEntry (entries ! m))" if "m < k" for m
    using that unfolding k_def by (rule not_less_Least)
  then have "\<forall>m<k. \<not> invalidEntry (entries ! m)" using k by auto
  then have before: "list_all (\<lambda>t. \<not> invalidEntry t) (take k entries)"
    using k by (intro take_no_invalid) simp_all
  have k1: "k < length entries" and k2: "invalidEntry (entries ! k)" using k by simp_all
  have "exit_code (main dig fs w prog args) = 1 \<and> stdout (main dig fs w prog args) = []"
    using first_invalid_entry_aborts [where fs = fs and args = args and entries = entries and i = k
      and dig = dig and w = w and prog = prog, OF assms(1,2) k1 before k2]
    by simp
  moreover have "\<exists>warnings. warningsOnly warnings \<and>
              stderr (main dig fs w prog args) =
                warnings @
                [errorMsg (''Line '' @ itoa (i + 1) @
                           '': Invalid entry (not an IPv4 or hostname): '' @
                           TrimSpace (entries ! i))]"
    if "list_all (\<lambda>t. \<not> invalidEntry t) (take i entries)"
    using first_invalid_entry_aborts [where fs = fs and args = args and entries = entries and i = i
      and dig = dig and w = w and prog = prog, OF assms(1,2,3) that assms(4)]
    by simp
  ultimately show ?thesis by blast
qed

text \<open>
  Claim C7.  When the allow-list has an entry classified \<open>Invalid\<close>, the run ends with
  exit code 1 and nothing is written to standard output, in list mode and in substitution
  mode.  The run ends at the first such line: the last write to standard error is the one
  error message, whose bytes cite the 1-based number of that line in decimal and its
  trimmed text, and all that precedes it on standard error are warnings of earlier lines.
\<close>

theorem invalid_entry_diagnostic:
  assumes "length args = 1 \<or> length args = 2"
    and "fs (args ! 0) = Some (entries, readErr)"
    and "i < length entries"
    and "invalidEntry (entries ! i)"
  shows "exit_code (main dig fs w prog args) = 1 \<and>
         stdout (main dig fs w prog args) = [] \<and>
         (list_all (\<lambda>t. \<not> invalidEntry t) (take i entries) \<longrightarrow>
           (\<exists>warnings num. warningsOnly warnings \<and> decimalOf (i + 1) num \<and>
              stderr (main dig fs w prog args) =
                warnings @
                [CHR 0x1B # ''[0;31mERROR: Line '' @ num @
                 '': Invalid entry (not an IPv4 or hostname): '' @
                 TrimSpace (entries ! i) @ CHR 0x1B # ''[0m\<newline>'']))"
proof -
  note old = invalid_entry_aborts [where fs = fs and args = args and entries = entries and i = i
      and dig = dig and w = w and prog = prog, OF assms]
  have "\<exists>warnings num. warningsOnly warnings \<and> decimalOf (i + 1) num \<and>
          stderr (main dig fs w prog args) =
            warnings @
            [CHR 0x1B # ''[0;31mERROR: Line '' @ num @
             '': Invalid entry (not an IPv4 or hostname): '' @
             TrimSpace (entries ! i) @ CHR 0x1B # ''[0m\<newline>'']"
    if first: "list_all (\<lambda>t. \<not> invalidEntry t) (take i entries)"
  proof -
    from old first obtain warnings where w: "warningsOnly warnings"
      and e: "stderr (main dig fs w prog args) =
        warnings @ [errorMsg (''Line '' @ itoa (i + 1) @
          '': Invalid entry (not an IPv4 or hostname): '' @ TrimSpace (entries ! i))]"
      by blast
    have "decimalOf (i + 1) (itoa (i + 1))" by (rule decimalOf_itoa)
    with w e show ?thesis unfolding errorMsg_bytes by blast
  qed
  with old show ?thesis by blast
qed

theorem invalid_entry_diagnostic_witness:
  "exit_code (main (\<lambda>name w. (Inl ''exit status 9'', w))
     (\<lambda>path. if path = ''allowed''
        then Some ([''10.0.0.1'', ''# office'', ''vpn.example.com'', '''', ''not a host!'', ''10.0.0.2''], None)
        else None)
     () ''wg-allowedips'' [''allowed'']) = 1 \<and>
   stdout (main (\<lambda>name w. (Inl ''exit status 9'', w))
     (\<lambda>path. if path = ''allowed''
        then Some ([''10.0.0.1'', ''# office'', ''vpn.example.com'', '''', ''not a host!'', ''10.0.0.2''], None)
        else None)
     () ''wg-allowedips'' [''allowed'']) = [] \<and>
   (\<exists>warnings num. warningsOnly warnings \<and> decimalOf 5 num \<and>
      stderr (main (\<lambda>name w. (Inl ''exit status 9'', w))
        (\<lambda>path. if path = ''allowed''
           then Some ([''10.0.0.1'', ''# office'', ''vpn.example.com'', '''', ''not a host!'', ''10.0.0.2''], None)
           else None)
        () ''wg-allowedips'' [''allowed'']) =
      warnings @
      [CHR 0x1B # ''[0;31mERROR: Line '' @ num @
       '': Invalid entry (not an IPv4 or hostname): not a host!'' @ CHR 0x1B # ''[0m\<newline>'']) \<and>
   stderr (main (\<lambda>name w. (Inl ''exit status 9'', w))
     (\<lambda>path. if path = ''allowed''
        then Some ([''10.0.0.1'', ''# office'', ''vpn.example.com'', '''', ''not a host!'', ''10.0.0.2''], None)
        else None)
     () ''wg-allowedips'' [''allowed'']) =
   [CHR 0x1B # ''[0;33mWARNING: Line 3: Failed to resolve hostname vpn.example.com: exit status 9'' @
      CHR 0x1B # ''[0m\<newline>'',
    CHR 0x1B # ''[0;31mERROR: Line 5: Invalid entry (not an IPv4 or hostname): not a host!'' @
      CHR 0x1B # ''[0m\<newline>'']"
proof -
  let ?dig = "\<lambda>(name::string) (w::unit). (Inl ''exit status 9'' :: string + string, w)"
  let ?entries = "[''10.0.0.1'', ''# office'', ''vpn.example.com'', '''', ''not a host!'', ''10.0.0.2'']"
  let ?fs = "\<lambda>path. if path = ''allowed'' then Some (?entries, None :: string option) else None"
  have h1: "length [''allowed''] = 1 \<or> length [''allowed''] = 2" by simp
  have h2: "?fs ([''allowed''] ! 0) = Some (?entries, None)" by simp
  have h3: "4 < length ?entries" by simp
  have h4: "list_all (\<lambda>t. \<not> invalidEntry t) (take 4 ?entries)" by code_simp
  have h5: "invalidEntry (?entries ! 4)" by code_simp
  have e: "TrimSpace (?entries ! 4) = ''not a host!''" by code_simp
  have n: "(4::nat) + 1 = 5" by simp
  have bytes: "stderr (main ?dig ?fs () ''wg-allowedips'' [''allowed'']) =
   [CHR 0x1B # ''[0;33mWARNING: Line 3: Failed to resolve hostname vpn.example.com: exit status 9'' @
      CHR 0x1B # ''[0m\<newline>'',
    CHR 0x1B # ''[0;31mERROR: Line 5: Invalid entry (not an IPv4 or hostname): not a host!'' @
      CHR 0x1B # ''[0m\<newline>'']"
    by code_simp
  from invalid_entry_diagnostic [where fs = ?fs and args = "[''allowed'']" and entries = ?entries
      and readErr = None and i = 4 and dig = ?dig and w = "()" and prog = "''wg-allowedips''",
      OF h1 h2 h3 h5] h4
  have "exit_code (main ?dig ?fs () ''wg-allowedips'' [''allowed'']) = 1 \<and>
    stdout (main ?dig ?fs () ''wg-allowedips'' [''allowed'']) = [] \<and>
    (\<exists>warnings num. warningsOnly warnings \<and> decimalOf 5 num \<and>
      stderr (main ?dig ?fs () ''wg-allowedips'' [''allowed'']) =
      warnings @
      [CHR 0x1B # ''[0;31mERROR: Line '' @ num @
       '': Invalid entry (not an IPv4 or hostname): not a host!'' @ CHR 0x1B # ''[0m\<newline>''])"
    unfolding e n by simp
  with bytes show ?thesis by blast
qed

lemma processLine_DomainName_continues:
  assumes "classify (TrimSpace t) = DomainName"
  shows "\<exists>st'. processLine dig st t = Inr st'"
proof -
  from assms have "\<not> invalidEntry t" by (simp add: invalidEntry_def)
  then show ?thesis using processLine_not_invalid by blast
qed

text \<open>
  Claim C2.  The claim says that the lines \<open>01.2.3.4\<close>, \<open>1.2.3.4.5\<close> and
  \<open>1.2.3\<close> are classified \<open>Invalid\<close> and abort the run.  They are not: each fails
  the address test, but each passes the host name test, whose label pattern accepts labels
  made of digits only.
\<close>

theorem numeric_names_not_Invalid:
  "classify ''01.2.3.4'' \<noteq> Invalid \<and>
   classify ''1.2.3.4.5'' \<noteq> Invalid \<and>
   classify ''1.2.3'' \<noteq> Invalid \<and>
   exit_code (main (\<lambda>name w. (Inr [], w))
     (\<lambda>path. if path = ''allowed'' then Some ([''01.2.3.4'', ''1.2.3.4.5'', ''1.2.3''], None) else None)
     () ''wg-allowedips'' [''allowed'']) = 0"
  by code_simp

text \<open>
  Claim C2, as the program has it.  The three lines are classified \<open>DomainName\<close>; the
  loop hands each to the resolver and goes on whatever the resolver does, and with a
  resolver that answers nothing the run ends with exit code 0 and three warnings.
\<close>

theorem numeric_names_classified_DomainName:
  "classify ''01.2.3.4'' = DomainName \<and>
   classify ''1.2.3.4.5'' = DomainName \<and>
   classify ''1.2.3'' = DomainName \<and>
   (\<exists>st'. processLine dig st ''01.2.3.4'' = Inr st') \<and>
   (\<exists>st'. processLine dig st ''1.2.3.4.5'' = Inr st') \<and>
   (\<exists>st'. processLine dig st ''1.2.3'' = Inr st') \<and>
   main (\<lambda>name w. (Inr [], w))
     (\<lambda>path. if path = ''allowed'' then Some ([''01.2.3.4'', ''1.2.3.4.5'', ''1.2.3''], None) else None)
     () ''wg-allowedips'' [''allowed'']
   = \<lparr>exit_code = 0, stdout = [],
      stderr = [warnMsg ''Line 1: No DNS results for hostname: 01.2.3.4'',
                warnMsg ''Line 2: No DNS results for hostname: 1.2.3.4.5'',
                warnMsg ''Line 3: No DNS results for hostname: 1.2.3'']\<rparr>"
proof -
  have c: "classify ''01.2.3.4'' = DomainName" "classify ''1.2.3.4.5'' = DomainName"
      "classify ''1.2.3'' = DomainName"
    by code_simp+
  have t: "TrimSpace ''01.2.3.4'' = ''01.2.3.4''" "TrimSpace ''1.2.3.4.5'' = ''1.2.3.4.5''"
      "TrimSpace ''1.2.3'' = ''1.2.3''"
    by code_simp+
  have "\<exists>st'. processLine dig st ''01.2.3.4'' = Inr st'"
    by (rule processLine_DomainName_continues) (simp only: t c)
  moreover have "\<exists>st'. processLine dig st ''1.2.3.4.5'' = Inr st'"
    by (rule processLine_DomainName_continues) (simp only: t c)
  moreover have "\<exists>st'. processLine dig st ''1.2.3'' = Inr st'"
    by (rule processLine_DomainName_continues) (simp only: t c)
  moreover have "main (\<lambda>name w. (Inr [], w))
     (\<lambda>path. if path = ''allowed'' then Some ([''01.2.3.4'', ''1.2.3.4.5'', ''1.2.3''], None) else None)
     () ''wg-allowedips'' [''allowed'']
   = \<lparr>exit_code = 0, stdout = [],
      stderr = [warnMsg ''Line 1: No DNS results for hostname: 01.2.3.4'',
                warnMsg ''Line 2: No DNS results for hostname: 1.2.3.4.5'',
                warnMsg ''Line 3: No DNS results for hostname: 1.2.3'']\<rparr>"
    by code_simp
  ultimately show ?thesis using c by blast
qed

text \<open>
  Claim C9.  In list mode, when the allow-list has been read to its end, the run exits
  with code 0 and prints the joined string and a newline if the final collection is not
  empty, and nothing at all if it is empty.  A file of comments and blank lines only
  gives no output, on either stream, and exit code 0.
\<close>

theorem list_mode_output:
  assumes "fs cfg = Some (entries, None)"
  shows "(scanEntries dig (initialState w) entries = Inr st \<longrightarrow>
            main dig fs w prog [cfg] =
              \<lparr>exit_code = 0,
               stdout = (if finalIPs (allIPs st) = [] then []
                         else [allowedIPsValue (allIPs st) @ ''\<newline>'']),
               stderr = diag st\<rparr>) \<and>
         (list_all (\<lambda>text. \<not> isEntry text) entries \<longrightarrow>
            main dig fs w prog [cfg] = \<lparr>exit_code = 0, stdout = [], stderr = []\<rparr>)"
proof (intro conjI impI)
  assume scan: "scanEntries dig (initialState w) entries = Inr st"
  show "main dig fs w prog [cfg] =
      \<lparr>exit_code = 0,
       stdout = (if finalIPs (allIPs st) = [] then []
                 else [allowedIPsValue (allIPs st) @ ''\<newline>'']),
       stderr = diag st\<rparr>"
    by (simp add: main_list_mode [where fs = fs and cfg = cfg, OF assms scan] emitOutput_def)
next
  assume "list_all (\<lambda>text. \<not> isEntry text) entries"
  then have scan: "scanEntries dig (initialState w) entries =
      Inr ((initialState w)\<lparr>lineNum := lineNum (initialState w) + length entries\<rparr>)"
    by (rule scanEntries_skip)
  have "finalIPs [] = []" by (simp add: finalIPs_def sortStrings_def removeDuplicates_def)
  then show "main dig fs w prog [cfg] = \<lparr>exit_code = 0, stdout = [], stderr = []\<rparr>"
    by (simp add: main_list_mode [where fs = fs and cfg = cfg, OF assms scan] emitOutput_def initialState_def)
qed

theorem list_mode_output_witness:
  "main (\<lambda>name w. (Inr ''192.0.2.7\<newline>'', w))
     (\<lambda>path. if path = ''allowed'' then Some ([''10.0.0.1'', ''vpn.example.com''], None)
             else if path = ''comments'' then Some ([''# only comments'', ''   '', '''', '' # here''], None)
             else None)
     () ''wg-allowedips'' [''allowed'']
     = \<lparr>exit_code = 0, stdout = [''10.0.0.1,192.0.2.7\<newline>''], stderr = []\<rparr> \<and>
   main (\<lambda>name w. (Inr ''192.0.2.7\<newline>'', w))
     (\<lambda>path. if path = ''allowed'' then Some ([''10.0.0.1'', ''vpn.example.com''], None)
             else if path = ''comments'' then Some ([''# only comments'', ''   '', '''', '' # here''], None)
             else None)
     () ''wg-allowedips'' [''comments'']
     = \<lparr>exit_code = 0, stdout = [], stderr = []\<rparr>"
proof -
  let ?dig = "\<lambda>(name::string) (w::unit). (Inr ''192.0.2.7\<newline>'' :: string + string, w)"
  let ?fs = "\<lambda>path. if path = ''allowed'' then Some ([''10.0.0.1'', ''vpn.example.com''], None)
             else if path = ''comments'' then Some ([''# only comments'', ''   '', '''', '' # here''], None)
             else None"
  let ?st = "\<lparr>lineNum = 2, allIPs = [''10.0.0.1'', ''192.0.2.7''], diag = [], world = ()\<rparr>"
  have f1: "?fs ''allowed'' = Some ([''10.0.0.1'', ''vpn.example.com''], None)" by simp
  have s1: "scanEntries ?dig (initialState ()) [''10.0.0.1'', ''vpn.example.com''] = Inr ?st"
    by code_simp
  have v1: "finalIPs (allIPs ?st) \<noteq> []" "allowedIPsValue (allIPs ?st) = ''10.0.0.1,192.0.2.7''"
    by code_simp+
  have f2: "?fs ''comments'' = Some ([''# only comments'', ''   '', '''', '' # here''], None)" by simp
  have s2: "list_all (\<lambda>text. \<not> isEntry text) [''# only comments'', ''   '', '''', '' # here'']"
    by code_simp
  from list_mode_output [where fs = ?fs and cfg = "''allowed''" and dig = ?dig and w = "()"
      and st = ?st and prog = "''wg-allowedips''", OF f1] s1 v1
  have "main ?dig ?fs () ''wg-allowedips'' [''allowed'']
     = \<lparr>exit_code = 0, stdout = [''10.0.0.1,192.0.2.7\<newline>''], stderr = []\<rparr>"
    by simp
  moreover from list_mode_output [where fs = ?fs and cfg = "''comments''" and dig = ?dig
      and w = "()" and prog = "''wg-allowedips''", OF f2] s2
  have "main ?dig ?fs () ''wg-allowedips'' [''comments'']
     = \<lparr>exit_code = 0, stdout = [], stderr = []\<rparr>"
    by blast
  ultimately show ?thesis by (rule conjI)
qed

end
